theory Spec2Isabelle
  imports Main "HOL-Library.Char_ord"
begin

section \<open>The JSON highlighter of internal/ui: \<open>highlightJSON\<close>\<close>

text \<open>
  \<open>highlightJSON\<close> walks a Go string (a sequence of bytes) once with an index \<open>i\<close>, two
  flags \<open>inString\<close> and \<open>afterColon\<close>, and a \<open>strings.Builder\<close> that receives the input
  bytes and the ANSI colour directives. Go strings are modelled as \<open>string\<close> (a list of
  8-bit characters). An index or slice expression out of range panics in Go; here it is
  the value \<open>Inl IndexOutOfRange\<close>, and every function that reads the input returns
  \<open>error + _\<close>. Go's \<open>int\<close> is signed, so the index of every read is computed in \<open>int\<close>:
  \<open>s[i-1]\<close> at \<open>i = 0\<close> reads index \<open>-1\<close> and fails. The loop counters themselves start
  at \<open>0\<close> or above and are only incremented; they are kept as \<open>nat\<close> and converted at each
  read.
\<close>

subsection \<open>Go strings: indexing and slicing\<close>

datatype error = IndexOutOfRange

definition byte_at :: "string \<Rightarrow> int \<Rightarrow> error + char" where
  \<comment> \<open>\<open>s[i]\<close>: panics unless \<open>0 <= i < len(s)\<close>\<close>
  "byte_at s i =
     (if 0 \<le> i \<and> i < int (length s) then Inr (s ! nat i) else Inl IndexOutOfRange)"

definition slice :: "string \<Rightarrow> int \<Rightarrow> int \<Rightarrow> error + string" where
  \<comment> \<open>\<open>s[lo:hi]\<close>: panics unless \<open>0 <= lo <= hi <= len(s)\<close>\<close>
  "slice s lo hi =
     (if 0 \<le> lo \<and> lo \<le> hi \<and> hi \<le> int (length s)
      then Inr (take (nat (hi - lo)) (drop (nat lo) s))
      else Inl IndexOutOfRange)"

lemma byte_at_nat:
  "byte_at s (int i) = (if i < length s then Inr (s ! i) else Inl IndexOutOfRange)"
  by (simp add: byte_at_def)

lemma byte_at_succ:
  "byte_at s (int i + 1) = (if i + 1 < length s then Inr (s ! (i + 1)) else Inl IndexOutOfRange)"
proof -
  have "int i + 1 = int (i + 1)" by simp
  then show ?thesis by (simp only: byte_at_nat)
qed

lemma byte_at_pred:
  "0 < i \<Longrightarrow>
   byte_at s (int i - 1) = (if i - 1 < length s then Inr (s ! (i - 1)) else Inl IndexOutOfRange)"
proof -
  assume "0 < i"
  then have "int i - 1 = int (i - 1)" by simp
  then show ?thesis by (simp only: byte_at_nat)
qed

lemma byte_at_below: "i < 0 \<Longrightarrow> byte_at s i = Inl IndexOutOfRange"
  by (simp add: byte_at_def)

lemma slice_nat:
  "slice s (int i) (int i + int n) =
     (if i + n \<le> length s then Inr (take n (drop i s)) else Inl IndexOutOfRange)"
  by (auto simp: slice_def)

lemma slice_4:
  "slice s (int i) (int i + 4) =
     (if i + 4 \<le> length s then Inr (take 4 (drop i s)) else Inl IndexOutOfRange)"
  using slice_nat [of s i 4] by simp

lemma slice_5:
  "slice s (int i) (int i + 5) =
     (if i + 5 \<le> length s then Inr (take 5 (drop i s)) else Inl IndexOutOfRange)"
  using slice_nat [of s i 5] by simp

lemmas read_simps = byte_at_nat byte_at_succ byte_at_pred slice_4 slice_5

subsection \<open>The builder\<close>

text \<open>
  A \<open>strings.Builder\<close> is append-only: it is modelled as the list of the writes made to
  it, in order, and \<open>String\<close> concatenates what they wrote.
\<close>

datatype written = WriteByte char | WriteString string

fun bytes_of :: "written \<Rightarrow> string" where
  "bytes_of (WriteByte c) = [c]"
| "bytes_of (WriteString t) = t"

definition String :: "written list \<Rightarrow> string" where
  "String ws = concat (map bytes_of ws)"

subsection \<open>Characters and colour directives\<close>

definition dquote :: char where "dquote = CHR 0x22"
definition backslash :: char where "backslash = CHR 0x5C"
definition newline :: char where "newline = CHR 0x0A"
definition tab :: char where "tab = CHR 0x09"
definition ESC :: char where "ESC = CHR 0x1B"

definition reset :: string where "reset = ESC # ''[0m''"
definition keyStyle :: string where "keyStyle = ESC # ''[38;5;203m''"
definition stringStyle :: string where "stringStyle = ESC # ''[38;5;114m''"
definition colonStyle :: string where "colonStyle = ESC # ''[38;5;245m''"
definition numberStyle :: string where "numberStyle = ESC # ''[38;5;215m''"
definition trueStyle :: string where "trueStyle = ESC # ''[38;5;79m''"
definition falseStyle :: string where "falseStyle = ESC # ''[38;5;204m''"
definition nullStyle :: string where "nullStyle = ESC # ''[38;5;139m''"
definition braceStyle :: string where "braceStyle = ESC # ''[38;5;222m'' @ ESC # ''[1m''"
definition bracketStyle :: string where "bracketStyle = ESC # ''[38;5;147m'' @ ESC # ''[1m''"

lemmas char_defs = dquote_def backslash_def newline_def tab_def ESC_def

lemmas style_defs = reset_def keyStyle_def stringStyle_def colonStyle_def numberStyle_def
  trueStyle_def falseStyle_def nullStyle_def braceStyle_def bracketStyle_def

definition is_digit :: "char \<Rightarrow> bool" where
  \<comment> \<open>\<open>c >= '0' && c <= '9'\<close>\<close>
  "is_digit c \<longleftrightarrow> CHR ''0'' \<le> c \<and> c \<le> CHR ''9''"

definition number_start :: "char \<Rightarrow> bool" where
  \<comment> \<open>the guard of the number case\<close>
  "number_start c \<longleftrightarrow> is_digit c \<or> c = CHR ''-'' \<or> c = CHR ''.''"

definition number_char :: "char \<Rightarrow> bool" where
  \<comment> \<open>the bytes the number loop continues over\<close>
  "number_char c \<longleftrightarrow>
     is_digit c \<or> c = CHR ''.'' \<or> c = CHR ''e'' \<or> c = CHR ''E'' \<or> c = CHR ''+'' \<or> c = CHR ''-''"

subsection \<open>The key lookahead\<close>

text \<open>
  The inner loop \<open>for k := j + 1; k < len(s); k++\<close>: \<open>isKey\<close> becomes true at a colon, the
  loop breaks at the first byte that is neither a colon nor space, newline or tab.
\<close>

function colon_scan :: "string \<Rightarrow> nat \<Rightarrow> error + bool" where
  "colon_scan s k =
     (if k < length s then
        (case byte_at s (int k) of
           Inl e \<Rightarrow> Inl e
         | Inr c \<Rightarrow>
             if c = CHR '':'' then Inr True
             else if c \<noteq> CHR '' '' \<and> c \<noteq> newline \<and> c \<noteq> tab then Inr False
             else colon_scan s (k + 1))
      else Inr False)"
  by pat_completeness auto
termination
  by (relation "measure (\<lambda>(s, k). length s - k)") simp_all

declare colon_scan.simps [simp del]

text \<open>
  The outer loop \<open>for j := i + 1; j < len(s); j++\<close>: it stops at the first byte \<open>"\<close> and
  runs the inner loop from the byte after it.
\<close>

function quote_scan :: "string \<Rightarrow> nat \<Rightarrow> error + bool" where
  "quote_scan s j =
     (if j < length s then
        (case byte_at s (int j) of
           Inl e \<Rightarrow> Inl e
         | Inr c \<Rightarrow> if c = dquote then colon_scan s (j + 1) else quote_scan s (j + 1))
      else Inr False)"
  by pat_completeness auto
termination
  by (relation "measure (\<lambda>(s, j). length s - j)") simp_all

declare quote_scan.simps [simp del]

subsection \<open>The number loop\<close>

text \<open>
  \<open>for i+1 < len(s) && (s[i+1] is a number byte) { i++; result.WriteByte(s[i]) }\<close>:
  the writes made and the final value of \<open>i\<close>.
\<close>

function number_loop :: "string \<Rightarrow> nat \<Rightarrow> error + (written list \<times> nat)" where
  "number_loop s i =
     (if i + 1 < length s then
        (case byte_at s (int i + 1) of
           Inl e \<Rightarrow> Inl e
         | Inr d \<Rightarrow>
             if number_char d then
               (case byte_at s (int i + 1) of
                  Inl e \<Rightarrow> Inl e
                | Inr b \<Rightarrow>
                    (case number_loop s (i + 1) of
                       Inl e \<Rightarrow> Inl e
                     | Inr r \<Rightarrow> Inr (WriteByte b # fst r, snd r)))
             else Inr ([], i))
      else Inr ([], i))"
  by pat_completeness auto
termination
  by (relation "measure (\<lambda>(s, i). length s - i)") simp_all

declare number_loop.simps [simp del]

subsection \<open>The guards of the switch that read the input\<close>

definition preceded_by_backslash :: "string \<Rightarrow> nat \<Rightarrow> error + bool" where
  \<comment> \<open>\<open>i > 0 && s[i-1] == '\\'\<close>\<close>
  "preceded_by_backslash s i =
     (if i > 0 then
        (case byte_at s (int i - 1) of Inl e \<Rightarrow> Inl e | Inr p \<Rightarrow> Inr (p = backslash))
      else Inr False)"

definition case_true :: "string \<Rightarrow> nat \<Rightarrow> char \<Rightarrow> bool \<Rightarrow> error + bool" where
  \<comment> \<open>\<open>c == 't' && !inString && i+3 < len(s) && s[i:i+4] == "true"\<close>\<close>
  "case_true s i c inString =
     (if c = CHR ''t'' \<and> \<not> inString \<and> i + 3 < length s then
        (case slice s (int i) (int i + 4) of Inl e \<Rightarrow> Inl e | Inr t \<Rightarrow> Inr (t = ''true''))
      else Inr False)"

definition case_false :: "string \<Rightarrow> nat \<Rightarrow> char \<Rightarrow> bool \<Rightarrow> error + bool" where
  \<comment> \<open>\<open>c == 'f' && !inString && i+4 < len(s) && s[i:i+5] == "false"\<close>\<close>
  "case_false s i c inString =
     (if c = CHR ''f'' \<and> \<not> inString \<and> i + 4 < length s then
        (case slice s (int i) (int i + 5) of Inl e \<Rightarrow> Inl e | Inr t \<Rightarrow> Inr (t = ''false''))
      else Inr False)"

definition case_null :: "string \<Rightarrow> nat \<Rightarrow> char \<Rightarrow> bool \<Rightarrow> error + bool" where
  \<comment> \<open>\<open>c == 'n' && !inString && i+3 < len(s) && s[i:i+4] == "null"\<close>\<close>
  "case_null s i c inString =
     (if c = CHR ''n'' \<and> \<not> inString \<and> i + 3 < length s then
        (case slice s (int i) (int i + 4) of Inl e \<Rightarrow> Inl e | Inr t \<Rightarrow> Inr (t = ''null''))
      else Inr False)"

subsection \<open>One iteration of the main loop\<close>

text \<open>
  The result of an iteration is the writes it made to the builder and the values of
  \<open>i\<close>, \<open>inString\<close> and \<open>afterColon\<close> at its end (before the \<open>i++\<close> of the \<open>for\<close>
  statement). The cases are tried in the order of the \<open>switch\<close>.
\<close>

type_synonym iteration = "written list \<times> nat \<times> bool \<times> bool"

definition quote_case :: "string \<Rightarrow> nat \<Rightarrow> char \<Rightarrow> bool \<Rightarrow> bool \<Rightarrow> error + iteration" where
  "quote_case s i c inString afterColon =
     (case preceded_by_backslash s i of
        Inl e \<Rightarrow> Inl e
      | Inr esc \<Rightarrow>
          if esc then Inr ([WriteByte c], i, inString, afterColon)
          else if inString then Inr ([WriteByte c, WriteString reset], i, False, False)
          else
            (case quote_scan s (i + 1) of
               Inl e \<Rightarrow> Inl e
             | Inr isKey \<Rightarrow>
                 Inr ([WriteString (if isKey then keyStyle else stringStyle), WriteByte c],
                      i, True, afterColon)))"

definition number_case :: "string \<Rightarrow> nat \<Rightarrow> char \<Rightarrow> bool \<Rightarrow> bool \<Rightarrow> error + iteration" where
  "number_case s i c inString afterColon =
     (if \<not> inString \<and> afterColon then
        (case number_loop s i of
           Inl e \<Rightarrow> Inl e
         | Inr r \<Rightarrow>
             Inr ([WriteString numberStyle, WriteByte c] @ fst r @ [WriteString reset],
                  snd r, inString, False))
      else Inr ([WriteByte c], i, inString, afterColon))"

definition structural_case :: "nat \<Rightarrow> char \<Rightarrow> bool \<Rightarrow> bool \<Rightarrow> iteration" where
  \<comment> \<open>the cases after the literals: braces, brackets, comma, default\<close>
  "structural_case i c inString afterColon =
     (if c = CHR ''{'' \<or> c = CHR ''}'' then
        ([WriteString braceStyle, WriteByte c, WriteString reset], i, inString,
         (if c = CHR ''{'' then False else afterColon))
      else if c = CHR ''['' \<or> c = CHR '']'' then
        ([WriteString bracketStyle, WriteByte c, WriteString reset], i, inString,
         (if c = CHR ''['' then False else afterColon))
      else if c = CHR '','' \<and> \<not> inString then
        ([WriteByte c], i, inString, False)
      else ([WriteByte c], i, inString, afterColon))"

definition literal_cases :: "string \<Rightarrow> nat \<Rightarrow> char \<Rightarrow> bool \<Rightarrow> bool \<Rightarrow> error + iteration" where
  "literal_cases s i c inString afterColon =
     (case case_true s i c inString of
        Inl e \<Rightarrow> Inl e
      | Inr is_true \<Rightarrow>
          if is_true then
            Inr ([WriteString trueStyle, WriteString ''true'', WriteString reset],
                 i + 3, inString, False)
          else
            (case case_false s i c inString of
               Inl e \<Rightarrow> Inl e
             | Inr is_false \<Rightarrow>
                 if is_false then
                   Inr ([WriteString falseStyle, WriteString ''false'', WriteString reset],
                        i + 4, inString, False)
                 else
                   (case case_null s i c inString of
                      Inl e \<Rightarrow> Inl e
                    | Inr is_null \<Rightarrow>
                        if is_null then
                          Inr ([WriteString nullStyle, WriteString ''null'', WriteString reset],
                               i + 3, inString, False)
                        else Inr (structural_case i c inString afterColon))))"

definition body :: "string \<Rightarrow> nat \<Rightarrow> bool \<Rightarrow> bool \<Rightarrow> error + iteration" where
  "body s i inString afterColon =
     (case byte_at s (int i) of
        Inl e \<Rightarrow> Inl e
      | Inr c \<Rightarrow>
          if c = dquote then quote_case s i c inString afterColon
          else if c = CHR '':'' \<and> \<not> inString then
            Inr ([WriteString colonStyle, WriteByte c, WriteString reset], i, inString, True)
          else if number_start c then number_case s i c inString afterColon
          else literal_cases s i c inString afterColon)"

subsection \<open>The main loop and \<open>highlightJSON\<close>\<close>

text \<open>
  \<open>for i := 0; i < len(s); i++\<close>: the loop returns the writes made from index \<open>i\<close> on, those
  of the current iteration first. An iteration never moves \<open>i\<close> backwards, which is what
  makes the loop end.
\<close>

lemma number_loop_advances: "number_loop s i = Inr r \<Longrightarrow> i \<le> snd r"
proof (induction s i arbitrary: r rule: number_loop.induct)
  case (1 s i)
  show ?case
  proof (cases "i + 1 < length s \<and> number_char (s ! (i + 1))")
    case True
    then obtain r' where r': "number_loop s (i + 1) = Inr r'" and "snd r = snd r'"
      using "1.prems" by (subst (asm) number_loop.simps) (auto simp: read_simps split: sum.splits)
    moreover have "i + 1 \<le> snd r'"
      using "1.IH" [OF _ _ _ _ r'] True by (simp add: read_simps)
    ultimately show ?thesis by simp
  next
    case False
    then show ?thesis
      using "1.prems" by (subst (asm) number_loop.simps) (auto simp: read_simps split: if_splits)
  qed
qed

lemma body_advances:
  assumes "body s i inString afterColon = Inr (ws, i', inString', afterColon')"
  shows "i \<le> i'"
  using assms
  by (auto simp: body_def quote_case_def number_case_def literal_cases_def structural_case_def
      split: sum.splits if_splits dest: number_loop_advances)

function loop :: "string \<Rightarrow> nat \<Rightarrow> bool \<Rightarrow> bool \<Rightarrow> error + written list" where
  "loop s i inString afterColon =
     (if i < length s then
        (case body s i inString afterColon of
           Inl e \<Rightarrow> Inl e
         | Inr (ws, i', inString', afterColon') \<Rightarrow>
             (case loop s (i' + 1) inString' afterColon' of
                Inl e \<Rightarrow> Inl e
              | Inr rest \<Rightarrow> Inr (ws @ rest)))
      else Inr [])"
  by pat_completeness auto
termination
proof (relation "measure (\<lambda>(s, i, inString, afterColon). length s - i)")
  show "wf (measure (\<lambda>(s, i, inString, afterColon). length s - i))"
    by simp
next
  fix s :: string and i :: nat and inString afterColon :: bool
    and r :: iteration and ws x i' y inString' afterColon'
  assume "i < length s" and "body s i inString afterColon = Inr r"
    and "(ws, x) = r" and "(i', y) = x" and "(inString', afterColon') = y"
  then have "i \<le> i'"
    using body_advances [of s i inString afterColon ws i' inString' afterColon'] by auto
  with \<open>i < length s\<close>
  show "((s, i' + 1, inString', afterColon'), (s, i, inString, afterColon))
          \<in> measure (\<lambda>(s, i, inString, afterColon). length s - i)"
    by simp
qed

declare loop.simps [simp del]

definition highlightJSON :: "string \<Rightarrow> error + string" where
  "highlightJSON s =
     (case loop s 0 False False of Inl e \<Rightarrow> Inl e | Inr ws \<Rightarrow> Inr (String ws))"

subsection \<open>Removing the inserted directives\<close>

text \<open>
  The colour directives are the strings the function passes to \<open>WriteString\<close> besides the
  three literal words. \<open>strip_directives\<close> removes from the builder the writes of a
  directive. \<open>strip_ansi\<close> works on the returned string instead, as a terminal would:
  it drops every escape sequence, from the byte \<open>ESC\<close> up to its final byte \<open>m\<close>.
\<close>

definition directives :: "string list" where
  "directives = [reset, keyStyle, stringStyle, colonStyle, numberStyle, trueStyle, falseStyle,
                 nullStyle, braceStyle, bracketStyle]"

definition is_directive :: "written \<Rightarrow> bool" where
  "is_directive w = (case w of WriteByte c \<Rightarrow> False | WriteString t \<Rightarrow> t \<in> set directives)"

definition strip_directives :: "written list \<Rightarrow> written list" where
  "strip_directives ws = filter (\<lambda>w. \<not> is_directive w) ws"

fun skip_sequence :: "string \<Rightarrow> string" where
  "skip_sequence [] = []"
| "skip_sequence (c # cs) = (if c = CHR ''m'' then cs else skip_sequence cs)"

lemma length_skip_sequence: "length (skip_sequence cs) \<le> length cs"
  by (induction cs) auto

function strip_ansi :: "string \<Rightarrow> string" where
  "strip_ansi [] = []"
| "strip_ansi (c # cs) = (if c = ESC then strip_ansi (skip_sequence cs) else c # strip_ansi cs)"
  by pat_completeness auto
termination
  by (relation "measure length") (simp_all add: length_skip_sequence le_imp_less_Suc)

section \<open>Properties\<close>

subsection \<open>Unfolding the main loop\<close>


lemma loop_end: "\<not> i < length s \<Longrightarrow> loop s i inString afterColon = Inr []"
  by (subst loop.simps) simp

lemma loop_step:
  assumes "i < length s"
    and "body s i inString afterColon = Inr (ws, i', inString', afterColon')"
  shows "loop s i inString afterColon =
           (case loop s (i' + 1) inString' afterColon' of
              Inl e \<Rightarrow> Inl e
            | Inr rest \<Rightarrow> Inr (ws @ rest))"
  using assms by (subst loop.simps) simp

lemma loop_induct [consumes 0, case_names iteration]:
  assumes "\<And>s i inString afterColon.
             (\<And>ws i' inString' afterColon'.
                 i < length s \<Longrightarrow>
                 body s i inString afterColon = Inr (ws, i', inString', afterColon') \<Longrightarrow>
                 P s (i' + 1) inString' afterColon') \<Longrightarrow>
             P s i inString afterColon"
  shows "P s i inString afterColon"
proof (induction s i inString afterColon rule: loop.induct)
  case (1 s i inString afterColon)
  show ?case
  proof (rule assms)
    fix ws i' inString' afterColon'
    assume "i < length s"
      and "body s i inString afterColon = Inr (ws, i', inString', afterColon')"
    then show "P s (i' + 1) inString' afterColon'"
      by (rule "1.IH" [OF _ _ refl refl refl])
  qed
qed

lemma colon_scan_total: "\<not> isl (colon_scan s k)"
proof (induction s k rule: colon_scan.induct)
  case (1 s k)
  then show ?case
    by (subst colon_scan.simps) (simp add: read_simps)
qed

lemma quote_scan_total: "\<not> isl (quote_scan s j)"
proof (induction s j rule: quote_scan.induct)
  case (1 s j)
  then show ?case
    by (subst quote_scan.simps) (simp add: read_simps colon_scan_total)
qed

lemma number_loop_total: "\<not> isl (number_loop s i)"
proof (induction s i rule: number_loop.induct)
  case (1 s i)
  then show ?case
    by (subst number_loop.simps) (auto simp: read_simps split: sum.splits)
qed

lemma preceded_by_backslash_total: "i < length s \<Longrightarrow> \<not> isl (preceded_by_backslash s i)"
  by (auto simp: preceded_by_backslash_def read_simps)

lemma case_true_total: "\<not> isl (case_true s i c inString)"
  by (simp add: case_true_def read_simps)

lemma case_false_total: "\<not> isl (case_false s i c inString)"
  by (simp add: case_false_def read_simps)

lemma case_null_total: "\<not> isl (case_null s i c inString)"
  by (simp add: case_null_def read_simps)

lemma quote_case_total:
  assumes "i < length s"
  shows "\<not> isl (quote_case s i c inString afterColon)"
  using preceded_by_backslash_total [OF assms] quote_scan_total [of s "i + 1"]
  by (auto simp: quote_case_def split: sum.splits)

lemma number_case_total: "\<not> isl (number_case s i c inString afterColon)"
  using number_loop_total [of s i]
  by (auto simp: number_case_def split: sum.splits)

lemma literal_cases_total: "\<not> isl (literal_cases s i c inString afterColon)"
  using case_true_total [of s i c inString] case_false_total [of s i c inString]
    case_null_total [of s i c inString]
  by (auto simp: literal_cases_def split: sum.splits)

lemma body_total:
  assumes "i < length s"
  shows "\<not> isl (body s i inString afterColon)"
  using assms quote_case_total [OF assms] number_case_total literal_cases_total
  by (simp add: body_def read_simps)

lemma loop_total: "\<not> isl (loop s i inString afterColon)"
proof (induction s i inString afterColon rule: loop_induct)
  case (iteration s i inString afterColon)
  show ?case
  proof (cases "i < length s")
    case True
    with body_total obtain ws i' inString' afterColon'
      where b: "body s i inString afterColon = Inr (ws, i', inString', afterColon')"
      by (metis prod_cases4 sum.collapse(2))
    show ?thesis
      using iteration [OF True b] by (auto simp: loop_step [OF True b] split: sum.splits)
  next
    case False
    then show ?thesis
      by (simp add: loop_end)
  qed
qed

text \<open>
  C10: \<open>highlightJSON\<close> returns a string on every input, the empty one included. A read
  of the input (\<open>byte_at\<close>, \<open>slice\<close>) is \<open>Inl IndexOutOfRange\<close> below index \<open>0\<close> as well as
  at or beyond \<open>len(s)\<close>, and the model makes each read under exactly the guards of the
  source: \<open>s[i-1]\<close> under \<open>i > 0\<close>, \<open>s[i+1]\<close> under \<open>i+1 < len(s)\<close>, the slices under
  \<open>i+3 < len(s)\<close> and \<open>i+4 < len(s)\<close>, \<open>s[j]\<close> and \<open>s[k]\<close> under the loop conditions. So
  no read of the function ever leaves \<open>[0, len(s))\<close>, and all its loops end.
\<close>

theorem highlightJSON_total:
  "(\<exists>out. highlightJSON s = Inr out)
   \<and> highlightJSON [] = Inr []
   \<and> byte_at s (- 1) = Inl IndexOutOfRange
   \<and> byte_at s (int (length s)) = Inl IndexOutOfRange
   \<and> slice s (int (length s) - 3) (int (length s) + 1) = Inl IndexOutOfRange"
proof -
  have "\<exists>out. highlightJSON s = Inr out"
  proof (cases "loop s 0 False False")
    case (Inl e)
    then show ?thesis
      using loop_total [of s 0 False False] by simp
  next
    case (Inr ws)
    then show ?thesis
      by (simp add: highlightJSON_def)
  qed
  moreover have "highlightJSON [] = Inr []"
    by (simp add: highlightJSON_def loop_end String_def)
  ultimately show ?thesis
    by (simp add: byte_at_def slice_def)
qed

text \<open>
  C9: on the input \<open>{"a": tru}\<close> the function returns; the brace, the key \<open>"a"\<close>, the colon
  and the closing brace are styled as usual, and the bytes \<open>tru\<close> (with the blank before
  them) are written with no directive around them.
\<close>

theorem truncated_literal_plain:
  \<open>highlightJSON ''{"a": tru}'' =
     Inr (braceStyle @ ''{'' @ reset @ keyStyle @ ''"a"'' @ reset @
          colonStyle @ '':'' @ reset @ '' tru'' @ braceStyle @ ''}'' @ reset)\<close>
  by code_simp

subsection \<open>The input bytes are passed through\<close>

lemma String_append: "String (ws @ ws') = String ws @ String ws'"
  by (simp add: String_def)

lemma strip_directives_append:
  "strip_directives (ws @ ws') = strip_directives ws @ strip_directives ws'"
  by (simp add: strip_directives_def)

lemma String_Nil: "String [] = []"
  by (simp add: String_def)

lemma String_Cons: "String (w # ws) = bytes_of w @ String ws"
  by (simp add: String_def)

lemma strip_directives_Nil: "strip_directives [] = []"
  by (simp add: strip_directives_def)

lemma strip_directives_Cons:
  "strip_directives (w # ws) =
     (if is_directive w then strip_directives ws else w # strip_directives ws)"
  by (simp add: strip_directives_def)

lemmas text_simps = String_Nil String_Cons strip_directives_Nil strip_directives_Cons
  String_append strip_directives_append

lemma not_directive_WriteByte: "\<not> is_directive (WriteByte c)"
  by (simp add: is_directive_def)

lemma is_directive_styles:
  "is_directive (WriteString reset)" "is_directive (WriteString keyStyle)"
  "is_directive (WriteString stringStyle)" "is_directive (WriteString colonStyle)"
  "is_directive (WriteString numberStyle)" "is_directive (WriteString trueStyle)"
  "is_directive (WriteString falseStyle)" "is_directive (WriteString nullStyle)"
  "is_directive (WriteString braceStyle)" "is_directive (WriteString bracketStyle)"
  by (simp_all add: is_directive_def directives_def)

lemma not_directive_literals:
  "\<not> is_directive (WriteString ''true'')" "\<not> is_directive (WriteString ''false'')"
  "\<not> is_directive (WriteString ''null'')"
  by (simp_all add: is_directive_def directives_def style_defs)

lemmas directive_simps = not_directive_WriteByte is_directive_styles not_directive_literals

lemma take_drop_glue:
  assumes "i \<le> i'" and "i' < length s"
  shows "take (Suc i' - i) (drop i s) @ drop (Suc i') s = drop i s"
proof -
  have "drop (Suc i') s = drop (Suc i' - i) (drop i s)"
    using assms by simp
  then show ?thesis
    by (simp only: append_take_drop_id)
qed

lemma number_loop_text:
  assumes "number_loop s i = Inr r" and "i < length s"
  shows "snd r < length s \<and> i \<le> snd r \<and> strip_directives (fst r) = fst r
         \<and> String (fst r) = take (snd r - i) (drop (Suc i) s)"
  using assms
proof (induction s i arbitrary: r rule: number_loop.induct)
  case (1 s i)
  show ?case
  proof (cases "i + 1 < length s \<and> number_char (s ! (i + 1))")
    case True
    then obtain r' where r': "number_loop s (i + 1) = Inr r'"
      and r: "r = (WriteByte (s ! (i + 1)) # fst r', snd r')"
      using "1.prems" by (subst (asm) number_loop.simps) (auto simp: read_simps split: sum.splits)
    have IH: "snd r' < length s \<and> i + 1 \<le> snd r' \<and> strip_directives (fst r') = fst r'
         \<and> String (fst r') = take (snd r' - (i + 1)) (drop (Suc (i + 1)) s)"
      using "1.IH" [OF _ _ _ _ r'] True by (simp add: read_simps)
    have "take (snd r' - i) (drop (Suc i) s) = s ! (i + 1) # take (snd r' - (i + 1)) (drop (Suc (i + 1)) s)"
    proof -
      have "drop (Suc i) s = s ! (Suc i) # drop (Suc (Suc i)) s"
        using True by (simp add: Cons_nth_drop_Suc)
      moreover have "snd r' - i = Suc (snd r' - (i + 1))"
        using IH by arith
      ultimately show ?thesis by simp
    qed
    with IH r show ?thesis
      by (simp add: text_simps directive_simps)
  next
    case False
    then have "r = ([], i)"
      using "1.prems" by (subst (asm) number_loop.simps) (auto simp: read_simps split: if_splits)
    with "1.prems" show ?thesis
      by (simp add: text_simps directive_simps)
  qed
qed


lemma quote_case_text:
  assumes "quote_case s i c inString afterColon = Inr (ws, i', inString', afterColon')"
  shows "i' = i \<and> String (strip_directives ws) = [c]"
  using assms
  by (auto simp: quote_case_def text_simps directive_simps split: sum.splits if_splits)

lemma number_case_text:
  assumes "number_case s i (s ! i) inString afterColon = Inr (ws, i', inString', afterColon')"
    and "i < length s"
  shows "i \<le> i' \<and> i' < length s \<and> String (strip_directives ws) = take (Suc i' - i) (drop i s)"
proof (cases "\<not> inString \<and> afterColon")
  case True
  then obtain r where r: "number_loop s i = Inr r"
    and ws: "ws = [WriteString numberStyle, WriteByte (s ! i)] @ fst r @ [WriteString reset]"
    and i': "i' = snd r"
    using assms(1) by (auto simp: number_case_def split: sum.splits)
  note nl = number_loop_text [OF r assms(2)]
  have "drop i s = s ! i # drop (Suc i) s"
    using assms(2) by (simp add: Cons_nth_drop_Suc)
  moreover have "Suc i' - i = Suc (snd r - i)"
    using nl i' by arith
  ultimately have "take (Suc i' - i) (drop i s) = s ! i # take (snd r - i) (drop (Suc i) s)"
    by simp
  moreover have "String (strip_directives ws) = s ! i # String (fst r)"
    using nl by (simp add: ws text_simps directive_simps)
  ultimately show ?thesis
    using nl i' by simp
next
  case False
  then have "ws = [WriteByte (s ! i)]" and "i' = i"
    using assms(1) by (auto simp: number_case_def)
  moreover have "take (Suc 0) (drop i s) = [s ! i]"
    using assms(2) by (simp add: take_Suc_conv_app_nth)
  ultimately show ?thesis
    using assms(2) by (simp add: text_simps directive_simps)
qed

lemma structural_case_text:
  assumes "structural_case i c inString afterColon = (ws, i', inString', afterColon')"
  shows "i' = i \<and> String (strip_directives ws) = [c]"
  using assms
  by (auto simp: structural_case_def text_simps directive_simps
      split: if_splits)

lemma literal_cases_text:
  assumes "literal_cases s i (s ! i) inString afterColon = Inr (ws, i', inString', afterColon')"
    and "i < length s"
  shows "i \<le> i' \<and> i' < length s \<and> String (strip_directives ws) = take (Suc i' - i) (drop i s)"
proof -
  have one: "take (Suc 0) (drop i s) = [s ! i]"
    using assms(2) by (simp add: take_Suc_conv_app_nth)
  show ?thesis
    using assms one
    by (auto simp: literal_cases_def case_true_def case_false_def case_null_def read_simps
        text_simps directive_simps
        split: sum.splits if_splits
        dest!: structural_case_text)
qed

lemma body_text:
  assumes "body s i inString afterColon = Inr (ws, i', inString', afterColon')"
    and "i < length s"
  shows "i \<le> i' \<and> i' < length s \<and> String (strip_directives ws) = take (Suc i' - i) (drop i s)"
proof -
  have one: "take (Suc 0) (drop i s) = [s ! i]"
    using assms(2) by (simp add: take_Suc_conv_app_nth)
  consider (quote) "quote_case s i (s ! i) inString afterColon = Inr (ws, i', inString', afterColon')"
    | (colon) "ws = [WriteString colonStyle, WriteByte (s ! i), WriteString reset]" "i' = i"
    | (number) "number_case s i (s ! i) inString afterColon = Inr (ws, i', inString', afterColon')"
    | (literal) "literal_cases s i (s ! i) inString afterColon = Inr (ws, i', inString', afterColon')"
    using assms by (auto simp: body_def read_simps split: if_splits)
  then show ?thesis
  proof cases
    case quote
    from quote_case_text [OF this] show ?thesis
      using assms(2) one by simp
  next
    case colon
    then show ?thesis
      using assms(2) one by (simp add: text_simps directive_simps)
  next
    case number
    then show ?thesis
      using assms(2) by (rule number_case_text)
  next
    case literal
    then show ?thesis
      using assms(2) by (rule literal_cases_text)
  qed
qed

lemma loop_text:
  assumes "loop s i inString afterColon = Inr out"
  shows "String (strip_directives out) = drop i s"
  using assms
proof (induction s i inString afterColon arbitrary: out rule: loop_induct)
  case (iteration s i inString afterColon)
  show ?case
  proof (cases "i < length s")
    case True
    with body_total obtain ws i' inString' afterColon'
      where b: "body s i inString afterColon = Inr (ws, i', inString', afterColon')"
      by (metis prod_cases4 sum.collapse(2))
    from iteration.prems obtain rest
      where rest: "loop s (i' + 1) inString' afterColon' = Inr rest" and out: "out = ws @ rest"
      by (auto simp: loop_step [OF True b] split: sum.splits)
    have "String (strip_directives rest) = drop (i' + 1) s"
      by (rule iteration.IH [OF True b rest])
    moreover note body_text [OF b True]
    ultimately show ?thesis
      by (simp add: out strip_directives_append String_append take_drop_glue)
  next
    case False
    with iteration.prems show ?thesis
      by (simp add: loop_end text_simps)
  qed
qed


lemma strip_ansi_directive:
  assumes "d \<in> set directives"
  shows "strip_ansi (d @ rest) = strip_ansi rest"
  using assms by (auto simp: directives_def style_defs)

lemma strip_ansi_text:
  assumes "ESC \<notin> set t"
  shows "strip_ansi (t @ rest) = t @ strip_ansi rest"
  using assms by (induction t) auto

lemma strip_ansi_String:
  assumes "\<forall>w \<in> set ws. \<not> is_directive w \<longrightarrow> ESC \<notin> set (bytes_of w)"
  shows "strip_ansi (String ws) = String (strip_directives ws)"
  using assms
proof (induction ws)
  case Nil
  show ?case by (simp add: text_simps)
next
  case (Cons w ws)
  show ?case
  proof (cases "is_directive w")
    case True
    then obtain d where "w = WriteString d" and "d \<in> set directives"
      by (cases w) (auto simp: is_directive_def)
    with Cons True show ?thesis
      by (simp add: text_simps strip_ansi_directive)
  next
    case False
    with Cons show ?thesis
      by (simp add: text_simps strip_ansi_text)
  qed
qed

lemma bytes_of_subset_String: "w \<in> set ws \<Longrightarrow> set (bytes_of w) \<subseteq> set (String ws)"
  by (auto simp: String_def)

text \<open>
  C1: the writes made for an input \<open>s\<close>, with the writes of a colour directive removed,
  spell exactly \<open>s\<close>: every input byte is written once, in order, and nothing else is
  written but directives. When \<open>s\<close> has no \<open>ESC\<close> byte of its own, dropping the escape
  sequences from the returned string gives \<open>s\<close> back as well.
\<close>

theorem highlightJSON_lossless:
  "\<exists>ws. loop s 0 False False = Inr ws \<and> highlightJSON s = Inr (String ws)
        \<and> String (strip_directives ws) = s
        \<and> (ESC \<notin> set s \<longrightarrow> strip_ansi (String ws) = s)"
proof -
  obtain ws where ws: "loop s 0 False False = Inr ws"
    using loop_total [of s 0 False False] by (cases "loop s 0 False False") auto
  have stripped: "String (strip_directives ws) = s"
    using loop_text [OF ws] by simp
  have "strip_ansi (String ws) = s" if "ESC \<notin> set s"
  proof -
    have "ESC \<notin> set (bytes_of w)" if "w \<in> set ws" and "\<not> is_directive w" for w
    proof -
      from that have "w \<in> set (strip_directives ws)"
        by (simp add: strip_directives_def)
      then have "set (bytes_of w) \<subseteq> set s"
        using bytes_of_subset_String [of w "strip_directives ws"] stripped by simp
      with \<open>ESC \<notin> set s\<close> show ?thesis by blast
    qed
    then show ?thesis
      using strip_ansi_String [of ws] stripped by auto
  qed
  with ws stripped show ?thesis
    by (simp add: highlightJSON_def)
qed

theorem highlightJSON_lossless_witness:
  \<open>\<exists>ws. loop ''{"n": [1, true]}'' 0 False False = Inr ws
        \<and> highlightJSON ''{"n": [1, true]}'' = Inr (String ws)
        \<and> String (strip_directives ws) = ''{"n": [1, true]}''
        \<and> ESC \<notin> set ''{"n": [1, true]}''
        \<and> strip_ansi (String ws) = ''{"n": [1, true]}''\<close>
  using highlightJSON_lossless [of \<open>''{"n": [1, true]}''\<close>] by (auto simp: ESC_def)

subsection \<open>Braces and brackets inside a string\<close>

text \<open>
  C2: the colon and comma cases of the switch are guarded by \<open>!inString\<close>, the brace and
  bracket cases are not. On the input \<open>"a{b"\<close> the byte \<open>{\<close> between the quotes is
  written with the brace directive and a reset of its own, so the bytes \<open>b"\<close> that follow
  are no longer in the string colour.
\<close>

theorem brace_inside_string_styled:
  \<open>highlightJSON ''"a{b"'' =
     Inr (stringStyle @ ''"a'' @ braceStyle @ ''{'' @ reset @ ''b"'' @ reset)\<close>
  by code_simp

subsection \<open>The \<open>afterColon\<close> flag\<close>




















subsection \<open>Escapes and the key lookahead\<close>

text \<open>
  C4: the quote case looks at the single byte before the quote, \<open>s[i-1] == '\\'\<close>, and
  keeps no escape flag. On the four bytes \<open>"\\"\<close> (a quote, two backslashes, a quote: the
  JSON string holding one backslash) the last quote is taken as escaped: the iteration
  writes it and leaves \<open>inString\<close> set, and no reset follows it in the output.
\<close>

theorem escaped_backslash_quote_not_closing:
  \<open>quote_case [dquote, backslash, backslash, dquote] 3 dquote True False =
     Inr ([WriteByte dquote], 3, True, False) \<and>
   highlightJSON [dquote, backslash, backslash, dquote] =
     Inr (stringStyle @ [dquote, backslash, backslash, dquote])\<close>
  by code_simp

text \<open>
  Where the string has no quote and no brace or bracket inside, the lookahead and the
  main loop agree: in \<open>{"a": "b"}\<close> the string before the colon is in the key colour, the
  string after it in the string colour, each with its two quotes and a reset behind it.
\<close>

lemma key_and_string_value:
  \<open>highlightJSON ''{"a": "b"}'' =
     Inr (braceStyle @ ''{'' @ reset @ keyStyle @ ''"a"'' @ reset @ colonStyle @ '':'' @ reset @
          '' '' @ stringStyle @ ''"b"'' @ reset @ braceStyle @ ''}'' @ reset)\<close>
  by code_simp

text \<open>
  C5: on the input \<open>{"a\"b": 1}\<close> the string \<open>"a\"b"\<close> is closed by its last quote and
  the next byte is a colon, yet it is written in the string colour, not the key colour.
\<close>

theorem key_with_escaped_quote_styled_as_string:
  \<open>highlightJSON (''{"a'' @ [backslash] @ ''"b": 1}'') =
     Inr (braceStyle @ ''{'' @ reset @ stringStyle @ ''"a'' @ [backslash] @ ''"b"'' @ reset @
          colonStyle @ '':'' @ reset @ '' '' @ numberStyle @ ''1'' @ reset @
          braceStyle @ ''}'' @ reset)\<close>
  by code_simp

text \<open>
  C6: the lookahead stops at the first byte \<open>"\<close> whatever precedes it. In \<open>"a\"b": 1\<close>
  it stops at the escaped quote, sees \<open>b\<close> and answers no, though a colon follows the
  quote that closes the string; in \<open>["x\": "]\<close> it stops at the escaped quote, sees the
  colon inside the string and answers yes.
\<close>

theorem lookahead_stops_at_escaped_quote:
  \<open>quote_scan (''"a'' @ [backslash] @ ''"b": 1'') 1 = Inr False \<and>
   colon_scan (''"a'' @ [backslash] @ ''"b": 1'') 6 = Inr True \<and>
   quote_scan (''["x'' @ [backslash] @ ''": "]'') 2 = Inr True\<close>
  by code_simp

subsection \<open>Unterminated strings\<close>

text \<open>
  C7: on the input \<open>{"a": "b\<close> the string colour is started before the second string
  and the input ends inside it: the output ends with the bytes \<open>"b\<close>, with no reset after
  the last directive.
\<close>

theorem unterminated_string_no_reset:
  \<open>highlightJSON ''{"a": "b'' =
     Inr (braceStyle @ ''{'' @ reset @ keyStyle @ ''"a"'' @ reset @ colonStyle @ '':'' @ reset @
          '' '' @ stringStyle @ ''"b'')\<close>
  by code_simp

text \<open>
  C8: on the input \<open>{"a": "b{c\<close> the function returns, and the unterminated string
  starts in the string colour; the brace inside it is written with the brace directive
  and a reset, and the byte \<open>c\<close> after it, up to the end of the input, is written with no
  colour.
\<close>

theorem unterminated_string_split_by_brace:
  \<open>highlightJSON ''{"a": "b{c'' =
     Inr (braceStyle @ ''{'' @ reset @ keyStyle @ ''"a"'' @ reset @ colonStyle @ '':'' @ reset @
          '' '' @ stringStyle @ ''"b'' @ braceStyle @ ''{'' @ reset @ ''c'')\<close>
  by code_simp

end
